theory Spec2Isabelle
  imports Main "HOL-Library.Word" "HOL-Library.List_Lexorder"
begin

unbundle bit_operations_syntax

section \<open>The hybrid logical clock of lib/Basics/HybridLogicalClock.h\<close>

text \<open>
  Timestamps are \<open>uint64_t\<close> values: the upper 44 bits hold a time in milliseconds,
  the lower 20 bits a counter. All arithmetic is that of 64-bit unsigned words, so
  \<open>+\<close> and \<open>push_bit\<close> wrap around as \<open>+\<close> and \<open><<\<close> do in the source.
\<close>

type_synonym uint64_t = "64 word"

text \<open>A \<open>char\<close> is one byte. The source compares table entries with \<open>c < 0\<close>, so it
  reads \<open>char\<close> as a signed byte; \<open>sint\<close> gives that reading, \<open>unat\<close> the reading of
  \<open>static_cast<uint8_t>\<close>.\<close>

type_synonym cchar = "8 word"

subsection \<open>Bit packing\<close>

definition extractTime :: "uint64_t \<Rightarrow> uint64_t" where
  "extractTime t = drop_bit 20 t"

definition extractCount :: "uint64_t \<Rightarrow> uint64_t" where
  "extractCount t = t AND 0xfffff"

definition assembleTimeStamp :: "uint64_t \<Rightarrow> uint64_t \<Rightarrow> uint64_t" where
  "assembleTimeStamp time count = push_bit 20 time OR count"

subsection \<open>The compare-and-swap loops\<close>

text \<open>
  Both \<open>getTimeStamp\<close> overloads are loops around \<open>compare_exchange_weak\<close> on the
  shared \<open>lastTimeStamp\<close>. What a call cannot control is recorded per attempt:
  the reading of the physical clock, a store by another thread that lands between this
  attempt's load and its compare-and-swap (\<open>interference\<close>), and whether the weak
  compare-and-swap fails spuriously. A call is run on the list of attempts the
  environment grants it; a call that has not succeeded when the list ends has not
  returned (\<open>None\<close>). The result of a call is the returned timestamp together
  with the new content of \<open>lastTimeStamp\<close>.
\<close>

record attempt =
  physical :: uint64_t
  interference :: "uint64_t option"
  spurious :: bool

definition currentValue :: "attempt \<Rightarrow> uint64_t \<Rightarrow> uint64_t" where
  "currentValue a lastTimeStamp =
     (case interference a of None \<Rightarrow> lastTimeStamp | Some v \<Rightarrow> v)"

definition compare_exchange_weak :: "attempt \<Rightarrow> uint64_t \<Rightarrow> uint64_t \<Rightarrow> bool" where
  "compare_exchange_weak a lastTimeStamp expected =
     (currentValue a lastTimeStamp = expected \<and> \<not> spurious a)"

text \<open>The body of the loop of \<open>getTimeStamp()\<close>: the candidate computed from the
  physical time and the loaded value.\<close>

definition tickCandidate :: "uint64_t \<Rightarrow> uint64_t \<Rightarrow> uint64_t" where
  "tickCandidate phys oldTimeStamp =
     (let oldTime = extractTime oldTimeStamp in
      if phys \<le> oldTime
      then assembleTimeStamp oldTime (extractCount oldTimeStamp + 1)
      else assembleTimeStamp phys 0)"

fun getTimeStamp :: "attempt list \<Rightarrow> uint64_t \<Rightarrow> (uint64_t \<times> uint64_t) option" where
  "getTimeStamp [] lastTimeStamp = None"
| "getTimeStamp (a # rest) lastTimeStamp =
     (let oldTimeStamp = lastTimeStamp;
          newTimeStamp = tickCandidate (physical a) oldTimeStamp
      in if compare_exchange_weak a lastTimeStamp oldTimeStamp
         then Some (newTimeStamp, newTimeStamp)
         else getTimeStamp rest (currentValue a lastTimeStamp))"

text \<open>The body of the loop of \<open>getTimeStamp(uint64_t receivedTimeStamp)\<close>. As in the
  source, the counters are extracted from \<open>oldTime\<close> and \<open>recTime\<close>, the values
  already shifted right by 20.\<close>

definition updateCandidate :: "uint64_t \<Rightarrow> uint64_t \<Rightarrow> uint64_t \<Rightarrow> uint64_t" where
  "updateCandidate receivedTimeStamp phys oldTimeStamp =
     (let oldTime = extractTime oldTimeStamp;
          recTime = extractTime receivedTimeStamp;
          newTime = max (max oldTime phys) recTime;
          newCount =
            (if newTime = oldTime then
               (if newTime = recTime
                then max (extractCount oldTime) (extractCount recTime) + 1
                else extractCount oldTime + 1)
             else
               (if newTime = recTime
                then extractCount recTime + 1
                else 0))
      in assembleTimeStamp newTime newCount)"

fun getTimeStampReceived ::
  "uint64_t \<Rightarrow> attempt list \<Rightarrow> uint64_t \<Rightarrow> (uint64_t \<times> uint64_t) option" where
  "getTimeStampReceived receivedTimeStamp [] lastTimeStamp = None"
| "getTimeStampReceived receivedTimeStamp (a # rest) lastTimeStamp =
     (let oldTimeStamp = lastTimeStamp;
          newTimeStamp = updateCandidate receivedTimeStamp (physical a) oldTimeStamp
      in if compare_exchange_weak a lastTimeStamp oldTimeStamp
         then Some (newTimeStamp, newTimeStamp)
         else getTimeStampReceived receivedTimeStamp rest (currentValue a lastTimeStamp))"

text \<open>The shared value an attempt loads after the attempts \<open>pre\<close> have all failed.\<close>

definition valueRead :: "attempt list \<Rightarrow> uint64_t \<Rightarrow> uint64_t" where
  "valueRead pre lastTimeStamp = foldl (\<lambda>l b. currentValue b l) lastTimeStamp pre"

subsection \<open>Sequential runs of one clock\<close>

text \<open>An attempt that no other thread disturbs and that does not fail spuriously.\<close>

definition undisturbed :: "uint64_t \<Rightarrow> attempt" where
  "undisturbed p = \<lparr>physical = p, interference = None, spurious = False\<rparr>"

text \<open>A call in a sequential run: \<open>Tick p\<close> is \<open>getTimeStamp()\<close> and \<open>Update p r\<close> is
  \<open>getTimeStamp(r)\<close>, each with the physical clock reading \<open>p\<close>.\<close>

datatype call = Tick uint64_t | Update uint64_t uint64_t

fun perform :: "call \<Rightarrow> uint64_t \<Rightarrow> (uint64_t \<times> uint64_t) option" where
  "perform (Tick p) lastTimeStamp = getTimeStamp [undisturbed p] lastTimeStamp"
| "perform (Update p r) lastTimeStamp = getTimeStampReceived r [undisturbed p] lastTimeStamp"

text \<open>The values returned by a sequence of calls on one clock whose \<open>lastTimeStamp\<close>
  starts at the given value.\<close>

fun runCalls :: "call list \<Rightarrow> uint64_t \<Rightarrow> uint64_t list option" where
  "runCalls [] lastTimeStamp = Some []"
| "runCalls (c # cs) lastTimeStamp =
     (case perform c lastTimeStamp of
        None \<Rightarrow> None
      | Some (ret, last') \<Rightarrow>
          (case runCalls cs last' of None \<Rightarrow> None | Some rets \<Rightarrow> Some (ret # rets)))"

subsection \<open>The merge as the specification words it\<close>

text \<open>The value the specification asks of \<open>update(received)\<close>: the same case analysis,
  with the counters taken from the packed timestamps \<open>old\<close> and \<open>received\<close>.\<close>

definition specUpdateValue :: "uint64_t \<Rightarrow> uint64_t \<Rightarrow> uint64_t \<Rightarrow> uint64_t" where
  "specUpdateValue received phys old =
     (let oldTime = drop_bit 20 old;
          recTime = drop_bit 20 received;
          newTime = max (max oldTime phys) recTime;
          newCount =
            (if newTime = oldTime \<and> newTime = recTime
               then max (old AND 0xFFFFF) (received AND 0xFFFFF) + 1
             else if newTime = oldTime \<and> newTime \<noteq> recTime
               then (old AND 0xFFFFF) + 1
             else if newTime = recTime \<and> newTime \<noteq> oldTime
               then (received AND 0xFFFFF) + 1
             else 0)
      in push_bit 20 newTime OR newCount)"

subsection \<open>The string codec\<close>

text \<open>
  \<open>encodeTable\<close> (65 chars: 64 symbols and the terminating NUL) and \<open>decodeTable\<close>
  (256 chars) are only declared in the header; the functions below take them as
  parameters. Indexing the string \<open>r\<close> outside its 11 characters would be undefined
  behaviour and is the result \<open>None\<close>; \<open>pos\<close> is a \<open>size_t\<close> that \<open>--pos\<close> must
  not take below 0.
\<close>

function encodeLoop ::
  "cchar list \<Rightarrow> uint64_t \<Rightarrow> nat \<Rightarrow> cchar list \<Rightarrow> (nat \<times> cchar list) option" where
  "encodeLoop encodeTable t pos r =
     (if t > 0 then
        (if pos = 0 \<or> length r \<le> pos - 1 then None
         else encodeLoop encodeTable (drop_bit 6 t) (pos - 1)
                (r[pos - 1 := encodeTable ! unat (ucast (t AND 0x3f) :: 8 word)]))
      else Some (pos, r))"
  by pat_completeness auto
termination
proof (relation "measure (\<lambda>(encodeTable, t, pos, r). unat t)")
  show "wf (measure (\<lambda>(encodeTable, t, pos, r). unat t))" by simp
next
  fix encodeTable :: "cchar list" and t :: uint64_t and pos :: nat and r :: "cchar list"
  assume "0 < t"
  then have "0 < unat t" by (simp add: word_less_nat_alt)
  then have "unat t div 2 ^ 6 < unat t" by simp
  then have "unat (drop_bit 6 t) < unat t"
    by (simp add: drop_bit_eq_div unat_div)
  then show "((encodeTable, drop_bit 6 t, pos - 1,
        r[pos - 1 := encodeTable ! unat (ucast (t AND 0x3f) :: 8 word)]),
       (encodeTable, t, pos, r)) \<in> measure (\<lambda>(encodeTable, t, pos, r). unat t)"
    by simp
qed

declare encodeLoop.simps [simp del]

definition encodeTimeStamp :: "cchar list \<Rightarrow> uint64_t \<Rightarrow> cchar list option" where
  "encodeTimeStamp encodeTable t =
     (case encodeLoop encodeTable t 11 (replicate 11 0) of
        None \<Rightarrow> None
      | Some (pos, r) \<Rightarrow>
          if length r < pos then None else Some (take (11 - pos) (drop pos r)))"

text \<open>The 6-bit groups of \<open>t\<close> from the most significant non-zero group down, and the
  symbols \<open>encodeTable\<close> gives them: what the loop of \<open>encodeTimeStamp\<close> writes, read
  from left to right.\<close>

function sextets :: "uint64_t \<Rightarrow> uint64_t list" where
  "sextets t = (if t = 0 then [] else sextets (drop_bit 6 t) @ [t AND 0x3f])"
  by pat_completeness auto
termination
proof (relation "measure unat")
  show "wf (measure unat)" by simp
next
  fix t :: uint64_t
  assume "t \<noteq> 0"
  then have "0 < unat t" by (simp add: unat_gt_0)
  then have "unat t div 2 ^ 6 < unat t" by simp
  then have "unat (drop_bit 6 t) < unat t"
    by (simp add: drop_bit_eq_div unat_div)
  then show "(drop_bit 6 t, t) \<in> measure unat" by simp
qed

declare sextets.simps [simp del]

definition symbols :: "cchar list \<Rightarrow> uint64_t \<Rightarrow> cchar list" where
  "symbols encodeTable t = map (\<lambda>d. encodeTable ! unat (ucast d :: 8 word)) (sextets t)"

fun decodeLoop :: "cchar list \<Rightarrow> uint64_t \<Rightarrow> cchar list \<Rightarrow> uint64_t" where
  "decodeLoop decodeTable r [] = r"
| "decodeLoop decodeTable r (c # s) =
     decodeLoop decodeTable (push_bit 6 r OR ucast (decodeTable ! unat c)) s"

definition decodeTimeStamp :: "cchar list \<Rightarrow> cchar list \<Rightarrow> uint64_t" where
  "decodeTimeStamp decodeTable s = decodeLoop decodeTable 0 s"

fun decodeCheckLoop :: "cchar list \<Rightarrow> uint64_t \<Rightarrow> cchar list \<Rightarrow> uint64_t" where
  "decodeCheckLoop decodeTable r [] = r"
| "decodeCheckLoop decodeTable r (x # s) =
     (let c = decodeTable ! unat x
      in if sint c < 0 then 0
         else decodeCheckLoop decodeTable (push_bit 6 r OR ucast c) s)"

definition decodeTimeStampWithCheck :: "cchar list \<Rightarrow> cchar list \<Rightarrow> uint64_t" where
  "decodeTimeStampWithCheck decodeTable s = decodeCheckLoop decodeTable 0 s"

subsection \<open>What the claims assume of the two tables\<close>

text \<open>The 64 symbols of the alphabet.\<close>

definition alphabet :: "cchar list \<Rightarrow> cchar set" where
  "alphabet encodeTable = set (take 64 encodeTable)"

text \<open>\<open>decodeTable\<close> inverts \<open>encodeTable\<close> on the 64 symbols.\<close>

definition inverseTables :: "cchar list \<Rightarrow> cchar list \<Rightarrow> bool" where
  "inverseTables encodeTable decodeTable =
     (length encodeTable = 65 \<and> length decodeTable = 256 \<and>
      (\<forall>i<64. decodeTable ! unat (encodeTable ! i) = of_nat i))"

text \<open>The symbol for the value \<open>n\<close> sorts strictly after the symbol for \<open>n - 1\<close>, as
  unsigned chars (the order \<open>std::string\<close> compares by).\<close>

definition increasingTable :: "cchar list \<Rightarrow> bool" where
  "increasingTable encodeTable =
     (length encodeTable = 65 \<and> (\<forall>n<63. encodeTable ! n < encodeTable ! Suc n))"

text \<open>\<open>decodeTable\<close> holds a negative entry exactly at the chars outside the alphabet.\<close>

definition checkingTable :: "cchar list \<Rightarrow> cchar list \<Rightarrow> bool" where
  "checkingTable encodeTable decodeTable =
     (length decodeTable = 256 \<and>
      (\<forall>c. (c \<in> alphabet encodeTable) = (0 \<le> sint (decodeTable ! unat c))))"

text \<open>Modelled from the spec: the contents of \<open>encodeTable\<close> and \<open>decodeTable\<close>, which
  the header declares and does not define. The specification asks for 64 symbols in
  increasing character order; this instance takes \<open>-\<close>, the digits, the capital
  letters, \<open>_\<close> and the small letters, and inverts them, with -1 at every other
  char. It serves to evaluate the theorems below on concrete tables.\<close>

definition orderedAlphabet :: "cchar list" where
  "orderedAlphabet =
     map of_char ''-0123456789ABCDEFGHIJKLMNOPQRSTUVWXYZ_abcdefghijklmnopqrstuvwxyz''"

definition orderedEncodeTable :: "cchar list" where
  "orderedEncodeTable = orderedAlphabet @ [0]"

fun symbolValue :: "cchar list \<Rightarrow> nat \<Rightarrow> cchar \<Rightarrow> cchar" where
  "symbolValue [] i c = - 1"
| "symbolValue (x # xs) i c = (if x = c then of_nat i else symbolValue xs (Suc i) c)"

definition orderedDecodeTable :: "cchar list" where
  "orderedDecodeTable = map (\<lambda>n. symbolValue orderedAlphabet 0 (of_nat n)) [0..<256]"

section \<open>Facts about the bit packing\<close>

lemma extractCount_take_bit: "extractCount t = take_bit 20 t"
  by (simp add: extractCount_def take_bit_eq_mask mask_eq_exp_minus_1)

lemma unat_extractTime: "unat (extractTime t) = unat t div 2 ^ 20"
  by (simp add: extractTime_def drop_bit_eq_div unat_div)

lemma unat_extractCount: "unat (extractCount t) = unat t mod 2 ^ 20"
  by (simp add: extractCount_take_bit take_bit_eq_mod unat_mod)

lemma unat_push_bit_20: "unat (push_bit 20 (t::uint64_t)) = (unat t * 2 ^ 20) mod 2 ^ 64"
  by (simp add: push_bit_eq_mult unat_word_ariths)

lemma push_bit_20_and_take_bit_20: "push_bit 20 (t::uint64_t) AND take_bit 20 c = 0"
  by (simp add: bit_eq_iff bit_simps)

lemma assembleTimeStamp_plus:
  assumes "unat c < 2 ^ 20"
  shows "assembleTimeStamp t c = push_bit 20 t + c"
proof -
  have "c < 2 ^ 20" using assms by (simp add: word_less_nat_alt)
  then have "take_bit 20 c = c" by (simp add: take_bit_eq_mask less_mask_eq)
  then have "push_bit 20 t AND c = 0"
    using push_bit_20_and_take_bit_20 [of t c] by simp
  then show ?thesis
    by (simp add: assembleTimeStamp_def disjunctive_add_eq_or)
qed

lemma unat_assembleTimeStamp:
  assumes "unat c < 2 ^ 20" "unat t < 2 ^ 44"
  shows "unat (assembleTimeStamp t c) = unat t * 2 ^ 20 + unat c"
proof -
  have "unat t * 2 ^ 20 + unat c < 2 ^ 64" using assms by simp
  then show ?thesis using assms
    by (simp add: assembleTimeStamp_plus unat_word_ariths unat_push_bit_20)
qed

lemma unat_extractTime_less: "unat (extractTime t) < 2 ^ 44"
proof -
  have "unat t < 2 ^ 64" using unsigned_less [of t] by simp
  then show ?thesis by (simp add: unat_extractTime less_mult_imp_div_less)
qed

lemma unat_extractCount_less: "unat (extractCount t) < 2 ^ 20"
  by (simp add: unat_extractCount)

lemma unat_time_count: "unat t = unat (extractTime t) * 2 ^ 20 + unat (extractCount t)"
  by (simp add: unat_extractTime unat_extractCount)


lemma bumped_counter_greater:
  assumes "unat (extractCount old) < 2 ^ 20 - 1"
  shows "old < assembleTimeStamp (extractTime old) (extractCount old + 1)"
proof -
  have c1: "unat (extractCount old + 1) = unat (extractCount old) + 1"
    using assms by (simp add: unat_word_ariths)
  then have "unat (extractCount old + 1) < 2 ^ 20" using assms by simp
  then have "unat (assembleTimeStamp (extractTime old) (extractCount old + 1))
      = unat (extractTime old) * 2 ^ 20 + (unat (extractCount old) + 1)"
    using unat_extractTime_less [of old] c1 by (simp add: unat_assembleTimeStamp)
  then show ?thesis
    using unat_time_count [of old] by (simp add: word_less_nat_alt)
qed

lemma later_time_greater:
  assumes "extractTime old < p" "unat p < 2 ^ 44"
  shows "old < assembleTimeStamp p 0"
proof -
  have "unat (assembleTimeStamp p 0) = unat p * 2 ^ 20"
    using assms(2) unat_assembleTimeStamp [of 0 p] by simp
  moreover have "unat (extractTime old) + 1 \<le> unat p"
    using assms(1) by (simp add: word_less_nat_alt)
  then have "(unat (extractTime old) + 1) * 2 ^ 20 \<le> unat p * 2 ^ 20"
    by (rule mult_le_mono1)
  moreover have "unat old < (unat (extractTime old) + 1) * 2 ^ 20"
    using unat_time_count [of old] unat_extractCount_less [of old] by simp
  ultimately show ?thesis by (simp add: word_less_nat_alt)
qed


section \<open>Facts about the compare-and-swap loops\<close>

lemma compare_exchange_weak_undisturbed [simp]:
  "compare_exchange_weak (undisturbed p) l l"
  by (simp add: compare_exchange_weak_def currentValue_def undisturbed_def)

lemma physical_undisturbed [simp]: "physical (undisturbed p) = p"
  by (simp add: undisturbed_def)

lemma getTimeStamp_returns:
  "\<exists>a\<in>set sched. interference a = None \<and> \<not> spurious a \<Longrightarrow>
   \<exists>ret. getTimeStamp sched l = Some (ret, ret)"
proof (induction sched arbitrary: l)
  case Nil
  then show ?case by simp
next
  case (Cons a sched)
  show ?case
  proof (cases "compare_exchange_weak a l l")
    case True
    then show ?thesis by (simp add: Let_def)
  next
    case False
    then have "\<not> (interference a = None \<and> \<not> spurious a)"
      by (auto simp: compare_exchange_weak_def currentValue_def split: option.splits)
    with Cons.prems have "\<exists>b\<in>set sched. interference b = None \<and> \<not> spurious b"
      by auto
    from Cons.IH [OF this] False show ?thesis by (simp add: Let_def)
  qed
qed

lemma getTimeStamp_successful_attempt:
  "getTimeStamp sched l = Some (ret, l') \<Longrightarrow>
   \<exists>pre a post. sched = pre @ a # post \<and> getTimeStamp pre l = None \<and>
     compare_exchange_weak a (valueRead pre l) (valueRead pre l) \<and>
     ret = tickCandidate (physical a) (valueRead pre l) \<and> l' = ret"
proof (induction sched arbitrary: l)
  case Nil
  then show ?case by simp
next
  case (Cons a sched)
  show ?case
  proof (cases "compare_exchange_weak a l l")
    case True
    with Cons.prems have "ret = tickCandidate (physical a) l \<and> l' = ret"
      by (auto simp: Let_def)
    with True have "a # sched = [] @ a # sched \<and> getTimeStamp [] l = None \<and>
       compare_exchange_weak a (valueRead [] l) (valueRead [] l) \<and>
       ret = tickCandidate (physical a) (valueRead [] l) \<and> l' = ret"
      by (simp add: valueRead_def)
    then show ?thesis by blast
  next
    case False
    with Cons.prems have "getTimeStamp sched (currentValue a l) = Some (ret, l')"
      by (simp add: Let_def)
    from Cons.IH [OF this] obtain pre b post where
      h: "sched = pre @ b # post" "getTimeStamp pre (currentValue a l) = None"
         "compare_exchange_weak b (valueRead pre (currentValue a l)) (valueRead pre (currentValue a l))"
         "ret = tickCandidate (physical b) (valueRead pre (currentValue a l))" "l' = ret"
      by blast
    have v: "valueRead (a # pre) l = valueRead pre (currentValue a l)"
      by (simp add: valueRead_def)
    have "a # sched = (a # pre) @ b # post \<and> getTimeStamp (a # pre) l = None \<and>
      compare_exchange_weak b (valueRead (a # pre) l) (valueRead (a # pre) l) \<and>
      ret = tickCandidate (physical b) (valueRead (a # pre) l) \<and> l' = ret"
      using h False by (simp add: v Let_def)
    then show ?thesis by blast
  qed
qed



lemma tickCandidate_greater:
  assumes "p < 2 ^ 44" "p \<le> extractTime old \<longrightarrow> extractCount old < 0xfffff"
  shows "old < tickCandidate p old"
proof (cases "p \<le> extractTime old")
  case True
  with assms(2) have "extractCount old < 0xfffff" by simp
  then have "unat (extractCount old) < 2 ^ 20 - 1" by (simp add: word_less_nat_alt)
  from bumped_counter_greater [OF this] True show ?thesis
    by (simp add: tickCandidate_def)
next
  case False
  then have "extractTime old < p" by simp
  moreover have "unat p < 2 ^ 44" using assms(1) by (simp add: word_less_nat_alt)
  ultimately have "old < assembleTimeStamp p 0" by (rule later_time_greater)
  with False show ?thesis by (simp add: tickCandidate_def)
qed




section \<open>Facts about the codec\<close>

lemma unat_drop_bit_6: "unat (drop_bit 6 (t::uint64_t)) = unat t div 64"
  by (simp add: drop_bit_eq_div unat_div)

lemma and_0x3f_take_bit: "(t::uint64_t) AND 0x3f = take_bit 6 t"
  by (simp add: take_bit_eq_mask mask_eq_exp_minus_1)

lemma unat_and_0x3f: "unat ((t::uint64_t) AND 0x3f) = unat t mod 64"
  by (simp add: and_0x3f_take_bit take_bit_eq_mod unat_mod)

lemma push_drop_or_and: "push_bit 6 (drop_bit 6 t) OR (t AND 0x3f) = (t::uint64_t)"
proof -
  have "push_bit 6 (drop_bit 6 t) AND take_bit 6 t = 0"
    by (simp add: bit_eq_iff bit_simps)
  then have "push_bit 6 (drop_bit 6 t) OR take_bit 6 t = push_bit 6 (drop_bit 6 t) + take_bit 6 t"
    by (simp add: disjunctive_add_eq_or)
  then show ?thesis by (simp add: and_0x3f_take_bit bits_ident)
qed

lemma sextets_0 [simp]: "sextets 0 = []"
  by (subst sextets.simps) simp

lemma sextets_step: "t \<noteq> 0 \<Longrightarrow> sextets t = sextets (drop_bit 6 t) @ [t AND 0x3f]"
  by (subst sextets.simps) simp

lemma sextets_Nil_iff: "sextets t = [] \<longleftrightarrow> t = 0"
  by (subst sextets.simps) simp

lemma length_sextets_le: "unat t < 64 ^ n \<Longrightarrow> length (sextets t) \<le> n"
proof (induction n arbitrary: t)
  case 0
  then have "t = 0" by (simp add: unat_eq_0)
  then show ?case by simp
next
  case (Suc n)
  show ?case
  proof (cases "t = 0")
    case True
    then show ?thesis by simp
  next
    case False
    from Suc.prems have "unat t div 64 < 64 ^ n"
      by (simp add: less_mult_imp_div_less mult.commute)
    then have "length (sextets (drop_bit 6 t)) \<le> n"
      using Suc.IH [of "drop_bit 6 t"] by (simp add: unat_drop_bit_6)
    with False show ?thesis by (simp add: sextets_step)
  qed
qed

lemma length_sextets_le_11: "length (sextets t) \<le> 11"
proof -
  have "unat t < 2 ^ 64" using unsigned_less [of t] by simp
  also have "(2::nat) ^ 64 < 64 ^ 11" by simp
  finally show ?thesis by (rule length_sextets_le)
qed

lemma unat_less_length_sextets: "unat t < 64 ^ length (sextets t)"
proof (induction t rule: sextets.induct)
  case (1 t)
  show ?case
  proof (cases "t = 0")
    case True
    then show ?thesis by simp
  next
    case False
    from 1 [OF False] have "unat t div 64 < 64 ^ length (sextets (drop_bit 6 t))"
      by (simp add: unat_drop_bit_6)
    then have "unat t < 64 * 64 ^ length (sextets (drop_bit 6 t))"
      by (simp add: div_less_iff_less_mult mult.commute)
    with False show ?thesis by (simp add: sextets_step)
  qed
qed

lemma length_sextets_minimal: "t \<noteq> 0 \<Longrightarrow> 64 ^ (length (sextets t) - 1) \<le> unat t"
proof (induction t rule: sextets.induct)
  case (1 t)
  from "1.prems" have len: "length (sextets t) - 1 = length (sextets (drop_bit 6 t))"
    by (simp add: sextets_step)
  show ?case
  proof (cases "drop_bit 6 t = 0")
    case True
    moreover from "1.prems" have "1 \<le> unat t" by (simp add: unat_gt_0 Suc_leI)
    ultimately show ?thesis using len by simp
  next
    case False
    from "1.IH" [OF "1.prems" False]
    have "64 ^ (length (sextets (drop_bit 6 t)) - 1) \<le> unat t div 64"
      by (simp add: unat_drop_bit_6)
    then have "64 * 64 ^ (length (sextets (drop_bit 6 t)) - 1) \<le> unat t"
      by (simp add: less_eq_div_iff_mult_less_eq mult.commute)
    moreover from False have "length (sextets (drop_bit 6 t)) \<noteq> 0"
      by (simp add: sextets_Nil_iff)
    then have "(64::nat) * 64 ^ (length (sextets (drop_bit 6 t)) - 1)
        = 64 ^ length (sextets (drop_bit 6 t))"
      by (cases "length (sextets (drop_bit 6 t))") simp_all
    ultimately show ?thesis using len by simp
  qed
qed

lemma sextets_less_64: "d \<in> set (sextets t) \<Longrightarrow> unat d < 64"
proof (induction t rule: sextets.induct)
  case (1 t)
  show ?case
  proof (cases "t = 0")
    case True
    with "1.prems" show ?thesis by simp
  next
    case False
    with "1.prems" have "d \<in> set (sextets (drop_bit 6 t)) \<or> d = t AND 0x3f"
      by (auto simp: sextets_step)
    then show ?thesis
    proof
      assume "d \<in> set (sextets (drop_bit 6 t))"
      with "1.IH" [OF False] show ?thesis by simp
    next
      assume "d = t AND 0x3f"
      then show ?thesis by (simp add: unat_and_0x3f)
    qed
  qed
qed

lemma hd_sextets_nonzero: "t \<noteq> 0 \<Longrightarrow> hd (sextets t) \<noteq> 0"
proof (induction t rule: sextets.induct)
  case (1 t)
  show ?case
  proof (cases "drop_bit 6 t = 0")
    case True
    then have "unat t div 64 = 0" using unat_drop_bit_6 [of t] by simp
    then have "unat (t AND 0x3f) = unat t" by (simp add: unat_and_0x3f)
    then have "t AND 0x3f = t" by (simp only: word_unat_eq_iff)
    with True "1.prems" show ?thesis by (simp add: sextets_step)
  next
    case False
    then have "sextets (drop_bit 6 t) \<noteq> []" by (simp add: sextets_Nil_iff)
    with "1.IH" [OF "1.prems" False] "1.prems" show ?thesis
      by (simp add: sextets_step)
  qed
qed


lemma length_symbols [simp]: "length (symbols encodeTable t) = length (sextets t)"
  by (simp add: symbols_def)

lemma symbols_0 [simp]: "symbols encodeTable 0 = []"
  by (simp add: symbols_def)

lemma symbols_step:
  "t \<noteq> 0 \<Longrightarrow> symbols encodeTable t =
     symbols encodeTable (drop_bit 6 t) @ [encodeTable ! unat (ucast (t AND 0x3f) :: 8 word)]"
  by (simp add: symbols_def sextets_step)

lemma unat_ucast_sextet: "unat (ucast ((t::uint64_t) AND 0x3f) :: 8 word) = unat t mod 64"
proof -
  have "unat (ucast (t AND 0x3f) :: 8 word) = unat (t AND 0x3f) mod 2 ^ 8"
    by (simp add: unsigned_ucast_eq take_bit_eq_mod)
  then show ?thesis by (simp add: unat_and_0x3f)
qed

lemma unat_8_to_64: "unat (ucast (c::cchar) :: uint64_t) = unat c"
proof -
  have "unat c < 2 ^ 8" using unsigned_less [of c] by simp
  then have "unat c < 2 ^ 64" by simp
  then show ?thesis by (simp add: unsigned_ucast_eq take_bit_nat_eq_self)
qed

lemma encodeLoop_symbols:
  "length (sextets t) \<le> pos \<Longrightarrow> pos \<le> length r \<Longrightarrow>
   encodeLoop encodeTable t pos r =
     Some (pos - length (sextets t),
           take (pos - length (sextets t)) r @ symbols encodeTable t @ drop pos r)"
proof (induction t arbitrary: pos r rule: sextets.induct)
  case (1 t)
  show ?case
  proof (cases "t = 0")
    case True
    then show ?thesis by (subst encodeLoop.simps) simp
  next
    case False
    let ?c = "encodeTable ! unat (ucast (t AND 0x3f) :: 8 word)"
    let ?n = "length (sextets (drop_bit 6 t))"
    from False have len: "length (sextets t) = Suc ?n" by (simp add: sextets_step)
    with "1.prems" have pos: "0 < pos" "pos - 1 < length r" "?n \<le> pos - 1" by simp_all
    have "encodeLoop encodeTable t pos r
        = encodeLoop encodeTable (drop_bit 6 t) (pos - 1) (r[pos - 1 := ?c])"
      using False pos by (subst encodeLoop.simps) (simp add: word_greater_zero_iff)
    also have "\<dots> = Some (pos - 1 - ?n,
        take (pos - 1 - ?n) (r[pos - 1 := ?c]) @ symbols encodeTable (drop_bit 6 t)
          @ drop (pos - 1) (r[pos - 1 := ?c]))"
      using pos "1.prems" by (intro "1.IH" [OF False]) simp_all
    also have "take (pos - 1 - ?n) (r[pos - 1 := ?c]) = take (pos - length (sextets t)) r"
      using len by simp
    also have "drop (pos - 1) (r[pos - 1 := ?c]) = ?c # drop pos r"
      using pos by (simp add: upd_conv_take_nth_drop)
    finally show ?thesis using False len by (simp add: symbols_step)
  qed
qed

lemma encodeTimeStamp_symbols: "encodeTimeStamp encodeTable t = Some (symbols encodeTable t)"
proof -
  have "encodeLoop encodeTable t 11 (replicate 11 0) =
     Some (11 - length (sextets t),
           take (11 - length (sextets t)) (replicate 11 0) @ symbols encodeTable t
             @ drop 11 (replicate 11 0))"
    using length_sextets_le_11 [of t] by (intro encodeLoop_symbols) simp_all
  then show ?thesis
    using length_sextets_le_11 [of t] by (simp add: encodeTimeStamp_def min_def)
qed

lemma decodeLoop_append:
  "decodeLoop decodeTable r (xs @ ys) = decodeLoop decodeTable (decodeLoop decodeTable r xs) ys"
  by (induction xs arbitrary: r) simp_all

lemma inverseTables_sextet:
  assumes "inverseTables encodeTable decodeTable"
  shows "ucast (decodeTable ! unat (encodeTable ! unat (ucast ((t::uint64_t) AND 0x3f) :: 8 word)))
           = t AND 0x3f"
proof -
  let ?i = "unat t mod 64"
  have i: "?i < 64" by simp
  with assms have "decodeTable ! unat (encodeTable ! ?i) = (of_nat ?i :: 8 word)"
    by (simp add: inverseTables_def)
  then have "unat (decodeTable ! unat (encodeTable ! ?i)) = ?i"
    using i by (simp add: unat_of_nat)
  then have "unat (ucast (decodeTable ! unat (encodeTable ! ?i)) :: uint64_t) = unat (t AND 0x3f)"
    by (simp add: unat_8_to_64 unat_and_0x3f)
  then show ?thesis by (simp only: unat_ucast_sextet word_unat_eq_iff)
qed

lemma decodeLoop_symbols:
  assumes "inverseTables encodeTable decodeTable"
  shows "decodeLoop decodeTable 0 (symbols encodeTable t) = t"
proof (induction t rule: sextets.induct)
  case (1 t)
  show ?case
  proof (cases "t = 0")
    case True
    then show ?thesis by simp
  next
    case False
    with "1.IH" show ?thesis
      by (simp add: symbols_step decodeLoop_append inverseTables_sextet [OF assms]
          push_drop_or_and)
  qed
qed


lemma increasingTable_nth_less:
  assumes "increasingTable encodeTable"
  shows "i < j \<Longrightarrow> j < 64 \<Longrightarrow> encodeTable ! i < encodeTable ! j"
proof (induction j)
  case 0
  then show ?case by simp
next
  case (Suc j)
  from Suc.prems assms have step: "encodeTable ! j < encodeTable ! Suc j"
    by (simp add: increasingTable_def)
  show ?case
  proof (cases "i = j")
    case True
    with step show ?thesis by simp
  next
    case False
    with Suc.prems have "i < j" "j < 64" by simp_all
    with Suc.IH step show ?thesis by (simp add: less_trans)
  qed
qed

lemma snoc_less_snoc:
  fixes xs ys :: "cchar list"
  assumes "length xs = length ys" "xs < ys \<or> (xs = ys \<and> x < y)"
  shows "xs @ [x] < ys @ [y]"
  using assms(2)
proof
  assume "xs < ys"
  then have "(xs, ys) \<in> lexord {(u, v). u < v}" by (simp add: list_less_def)
  then have "(xs @ [x], ys @ [y]) \<in> lexord {(u, v). u < v}"
    using assms(1) by (intro lexord_sufI) simp_all
  then show ?thesis by (simp add: list_less_def)
next
  assume "xs = ys \<and> x < y"
  then have "(ys @ x # [], ys @ y # []) \<in> lexord {(u, v). u < v}"
    by (intro lexord_append_left_rightI) simp
  with \<open>xs = ys \<and> x < y\<close> show ?thesis by (simp add: list_less_def)
qed

lemma word_less_by_sextets:
  assumes "(a::uint64_t) < b"
  shows "drop_bit 6 a < drop_bit 6 b \<or> (drop_bit 6 a = drop_bit 6 b \<and> unat a mod 64 < unat b mod 64)"
proof -
  from assms have less: "unat a < unat b" by (simp add: word_less_nat_alt)
  have a: "unat a = 64 * (unat a div 64) + unat a mod 64" by simp
  have b: "unat b = 64 * (unat b div 64) + unat b mod 64" by simp
  have "unat a div 64 \<le> unat b div 64" using less by (simp add: div_le_mono)
  then consider "unat a div 64 < unat b div 64" | "unat a div 64 = unat b div 64" by linarith
  then show ?thesis
  proof cases
    case 1
    then show ?thesis by (simp add: word_less_nat_alt unat_drop_bit_6)
  next
    case 2
    with less a b have "unat a mod 64 < unat b mod 64" by linarith
    moreover from 2 have "drop_bit 6 a = drop_bit 6 b"
      by (simp add: word_unat_eq_iff unat_drop_bit_6)
    ultimately show ?thesis by simp
  qed
qed

lemma symbols_less:
  assumes "increasingTable encodeTable"
  shows "a < b \<Longrightarrow> length (sextets a) = length (sextets b) \<Longrightarrow>
         symbols encodeTable a < symbols encodeTable b"
proof (induction a arbitrary: b rule: sextets.induct)
  case (1 a)
  from "1.prems"(1) have b0: "b \<noteq> 0" by (auto simp: word_less_nat_alt)
  then have "sextets b \<noteq> []" by (simp add: sextets_Nil_iff)
  with "1.prems"(2) have a0: "a \<noteq> 0" by (auto simp: sextets_Nil_iff)
  from a0 b0 "1.prems"(2)
  have len: "length (sextets (drop_bit 6 a)) = length (sextets (drop_bit 6 b))"
    by (simp add: sextets_step)
  let ?ca = "encodeTable ! unat (ucast (a AND 0x3f) :: 8 word)"
  let ?cb = "encodeTable ! unat (ucast (b AND 0x3f) :: 8 word)"
  from word_less_by_sextets [OF "1.prems"(1)]
  have "symbols encodeTable (drop_bit 6 a) < symbols encodeTable (drop_bit 6 b)
      \<or> (symbols encodeTable (drop_bit 6 a) = symbols encodeTable (drop_bit 6 b) \<and> ?ca < ?cb)"
  proof
    assume "drop_bit 6 a < drop_bit 6 b"
    from "1.IH" [OF a0 this len] show ?thesis by simp
  next
    assume h: "drop_bit 6 a = drop_bit 6 b \<and> unat a mod 64 < unat b mod 64"
    then have "encodeTable ! (unat a mod 64) < encodeTable ! (unat b mod 64)"
      by (intro increasingTable_nth_less [OF assms]) simp_all
    with h show ?thesis by (simp add: unat_ucast_sextet)
  qed
  then have "symbols encodeTable (drop_bit 6 a) @ [?ca] < symbols encodeTable (drop_bit 6 b) @ [?cb]"
    using len by (intro snoc_less_snoc) simp_all
  with a0 b0 show ?case by (simp add: symbols_step)
qed

lemma decodeCheckLoop_invalid:
  assumes "checkingTable encodeTable decodeTable"
  shows "\<not> set s \<subseteq> alphabet encodeTable \<Longrightarrow> decodeCheckLoop decodeTable r s = 0"
proof (induction s arbitrary: r)
  case Nil
  then show ?case by simp
next
  case (Cons x s)
  show ?case
  proof (cases "x \<in> alphabet encodeTable")
    case True
    with Cons.prems have "\<not> set s \<subseteq> alphabet encodeTable" by simp
    with Cons.IH show ?thesis by (simp add: Let_def)
  next
    case False
    with assms have "sint (decodeTable ! unat x) < 0"
      by (simp add: checkingTable_def not_le [symmetric])
    then show ?thesis by (simp add: Let_def)
  qed
qed

lemma decodeCheckLoop_valid:
  assumes "checkingTable encodeTable decodeTable"
  shows "set s \<subseteq> alphabet encodeTable \<Longrightarrow>
         decodeCheckLoop decodeTable r s = decodeLoop decodeTable r s"
proof (induction s arbitrary: r)
  case Nil
  then show ?case by simp
next
  case (Cons x s)
  from Cons.prems have "x \<in> alphabet encodeTable" "set s \<subseteq> alphabet encodeTable" by simp_all
  moreover from this(1) assms have "\<not> sint (decodeTable ! unat x) < 0"
    by (simp add: checkingTable_def not_less)
  ultimately show ?case using Cons.IH by (simp add: Let_def)
qed


section \<open>Facts about the ordered tables\<close>

lemma length_orderedAlphabet: "length orderedAlphabet = 64"
  by (simp add: orderedAlphabet_def)

lemma strict_sorted_Cons_Cons:
  "sorted_wrt (<) (x # y # zs) = (x < y \<and> sorted_wrt (<) (y # zs))" for x :: cchar
  by (rule sorted_wrt2) simp

lemma sorted_orderedAlphabet: "sorted_wrt (<) orderedAlphabet"
  unfolding orderedAlphabet_def
  by (simp only: list.map strict_sorted_Cons_Cons sorted_wrt1) simp

lemma distinct_orderedAlphabet: "distinct orderedAlphabet"
  using sorted_orderedAlphabet by (simp add: strict_sorted_iff)

lemma take_64_orderedEncodeTable: "take 64 orderedEncodeTable = orderedAlphabet"
  by (simp add: orderedEncodeTable_def length_orderedAlphabet)

lemma orderedEncodeTable_nth: "i < 64 \<Longrightarrow> orderedEncodeTable ! i = orderedAlphabet ! i"
  by (simp add: orderedEncodeTable_def nth_append length_orderedAlphabet)

lemma increasingTable_orderedEncodeTable: "increasingTable orderedEncodeTable"
proof -
  have "orderedEncodeTable ! n < orderedEncodeTable ! Suc n" if "n < 63" for n
  proof -
    from that have "orderedAlphabet ! n < orderedAlphabet ! Suc n"
      using sorted_orderedAlphabet
      by (simp add: sorted_wrt_iff_nth_less length_orderedAlphabet)
    with that show ?thesis by (simp add: orderedEncodeTable_nth)
  qed
  then show ?thesis
    by (simp add: increasingTable_def orderedEncodeTable_def length_orderedAlphabet)
qed

lemma symbolValue_nth:
  "distinct xs \<Longrightarrow> i < length xs \<Longrightarrow> symbolValue xs k (xs ! i) = of_nat (k + i)"
proof (induction xs arbitrary: i k)
  case Nil
  then show ?case by simp
next
  case (Cons x xs)
  show ?case
  proof (cases i)
    case 0
    then show ?thesis by simp
  next
    case (Suc j)
    with Cons.prems have "xs ! j \<noteq> x" "j < length xs" "distinct xs" by auto
    with Cons.IH [of j "Suc k"] Suc show ?thesis by simp
  qed
qed

lemma orderedDecodeTable_nth:
  "orderedDecodeTable ! unat c = symbolValue orderedAlphabet 0 c"
proof -
  have "unat c < 2 ^ 8" using unsigned_less [of c] by simp
  then have "unat c < 256" by simp
  then show ?thesis by (simp add: orderedDecodeTable_def)
qed

lemma inverseTables_ordered: "inverseTables orderedEncodeTable orderedDecodeTable"
proof -
  have "orderedDecodeTable ! unat (orderedEncodeTable ! i) = of_nat i" if "i < 64" for i
    using that symbolValue_nth [OF distinct_orderedAlphabet, of i 0]
    by (simp add: orderedDecodeTable_nth orderedEncodeTable_nth length_orderedAlphabet)
  then show ?thesis
    by (simp add: inverseTables_def orderedEncodeTable_def orderedDecodeTable_def
        length_orderedAlphabet)
qed

lemma sint_small_nonnegative: "k < 128 \<Longrightarrow> 0 \<le> sint (of_nat k :: cchar)"
proof -
  assume k: "k < 128"
  have "\<not> bit k 7"
    using k by (simp add: bit_iff_odd)
  then have "\<not> bit (of_nat k :: cchar) 7"
    by (simp only: bit_of_nat_iff) simp
  then have "\<not> sint (of_nat k :: cchar) < 0"
    using bit_last_iff [of "of_nat k :: cchar"] by simp
  then show ?thesis by simp
qed

lemma symbolValue_sign:
  "k + length xs \<le> 128 \<Longrightarrow> (0 \<le> sint (symbolValue xs k c)) = (c \<in> set xs)"
proof (induction xs arbitrary: k)
  case Nil
  then show ?case by simp
next
  case (Cons x xs)
  from Cons.prems have "k < 128" "Suc k + length xs \<le> 128" by simp_all
  with Cons.IH [of "Suc k"] show ?case
    by (auto simp: sint_small_nonnegative)
qed

lemma checkingTable_ordered: "checkingTable orderedEncodeTable orderedDecodeTable"
proof -
  have "(c \<in> alphabet orderedEncodeTable) = (0 \<le> sint (orderedDecodeTable ! unat c))" for c
    using symbolValue_sign [of 0 orderedAlphabet c]
    by (simp add: alphabet_def take_64_orderedEncodeTable orderedDecodeTable_nth
        length_orderedAlphabet)
  then show ?thesis
    by (simp add: checkingTable_def orderedDecodeTable_def)
qed

section \<open>Facts about the order of timestamps\<close>

lemma greater_by_time:
  assumes "extractTime x < t" "unat t < 2 ^ 44" "unat c < 2 ^ 20"
  shows "x < assembleTimeStamp t c"
proof -
  have "unat (assembleTimeStamp t c) = unat t * 2 ^ 20 + unat c"
    using assms(2,3) by (simp add: unat_assembleTimeStamp)
  moreover have "unat (extractTime x) + 1 \<le> unat t"
    using assms(1) by (simp add: word_less_nat_alt)
  then have "(unat (extractTime x) + 1) * 2 ^ 20 \<le> unat t * 2 ^ 20"
    by (rule mult_le_mono1)
  moreover have "unat x < (unat (extractTime x) + 1) * 2 ^ 20"
    using unat_time_count [of x] unat_extractCount_less [of x] by simp
  ultimately show ?thesis by (simp add: word_less_nat_alt)
qed

lemma greater_by_count:
  assumes "unat (extractCount x) < unat c" "unat c < 2 ^ 20"
  shows "x < assembleTimeStamp (extractTime x) c"
proof -
  have "unat (assembleTimeStamp (extractTime x) c) = unat (extractTime x) * 2 ^ 20 + unat c"
    using assms(2) unat_extractTime_less [of x] by (simp add: unat_assembleTimeStamp)
  then show ?thesis
    using unat_time_count [of x] assms(1) by (simp add: word_less_nat_alt)
qed

lemma unat_bumped_count:
  assumes "c < (0xfffff::uint64_t)"
  shows "unat (c + 1) = unat c + 1" "unat (c + 1) < 2 ^ 20"
proof -
  from assms have c: "unat c < 2 ^ 20 - 1" by (simp add: word_less_nat_alt)
  then show "unat (c + 1) = unat c + 1" by (simp add: unat_word_ariths)
  with c show "unat (c + 1) < 2 ^ 20" by simp
qed

lemma leading_time_cases:
  fixes a p b :: uint64_t
  shows "(a < p \<and> b < p) \<or> (p \<le> a \<and> a = b) \<or> (p \<le> a \<and> b < a) \<or> (p \<le> b \<and> a < b)"
  by (cases a b rule: linorder_cases) auto

lemma specUpdateValue_unfold:
  "specUpdateValue received p old =
     (let oldTime = extractTime old; recTime = extractTime received;
          newTime = max (max oldTime p) recTime
      in assembleTimeStamp newTime
           (if newTime = oldTime \<and> newTime = recTime
              then max (extractCount old) (extractCount received) + 1
            else if newTime = oldTime \<and> newTime \<noteq> recTime then extractCount old + 1
            else if newTime = recTime \<and> newTime \<noteq> oldTime then extractCount received + 1
            else 0))"
  by (simp add: specUpdateValue_def extractTime_def extractCount_def assembleTimeStamp_def
      Let_def)

text \<open>The merge as the specification words it does dominate both inputs, as long as
  the physical reading fits the time field and the counter that is bumped is below
  \<open>0xfffff\<close>.\<close>

lemma specUpdateValue_greater:
  assumes p: "p < 2 ^ 44"
    and oc: "p \<le> extractTime old \<and> extractTime received \<le> extractTime old
             \<longrightarrow> extractCount old < 0xfffff"
    and rc: "p \<le> extractTime received \<and> extractTime old \<le> extractTime received
             \<longrightarrow> extractCount received < 0xfffff"
  shows "old < specUpdateValue received p old \<and> received < specUpdateValue received p old"
proof -
  let ?o = "extractTime old" and ?r = "extractTime received"
  have up: "unat p < 2 ^ 44" using p by (simp add: word_less_nat_alt)
  consider (phys) "?o < p" "?r < p"
    | (tie) "p \<le> ?o" "?o = ?r"
    | (old) "p \<le> ?o" "?r < ?o"
    | (rec) "p \<le> ?r" "?o < ?r"
    using leading_time_cases [of ?o p ?r] by blast
  then show ?thesis
  proof cases
    case phys
    then have "max (max ?o p) ?r = p" "p \<noteq> ?o" "p \<noteq> ?r" by (auto simp: max_def)
    then have "specUpdateValue received p old = assembleTimeStamp p 0"
      by (simp add: specUpdateValue_unfold Let_def)
    with phys up greater_by_time [of old p 0] greater_by_time [of received p 0]
    show ?thesis by simp
  next
    case tie
    then have m: "max (max ?o p) ?r = ?o" by (auto simp: max_def)
    let ?c = "max (extractCount old) (extractCount received)"
    from tie oc rc have "?c < 0xfffff" by (simp add: max_def)
    from unat_bumped_count [OF this]
    have c: "unat (?c + 1) = unat ?c + 1" "unat (?c + 1) < 2 ^ 20" by simp_all
    have "unat (extractCount old) \<le> unat ?c" "unat (extractCount received) \<le> unat ?c"
      by (simp_all add: word_le_nat_alt [symmetric])
    with c have lt: "unat (extractCount old) < unat (?c + 1)"
      "unat (extractCount received) < unat (?c + 1)" by simp_all
    have "specUpdateValue received p old = assembleTimeStamp ?o (?c + 1)"
      using m tie by (simp add: specUpdateValue_unfold Let_def)
    with greater_by_count [OF lt(1) c(2)] greater_by_count [OF lt(2) c(2)] tie
    show ?thesis by simp
  next
    case old
    then have m: "max (max ?o p) ?r = ?o" "?o \<noteq> ?r" by (auto simp: max_def)
    from old oc have "extractCount old < 0xfffff" by simp
    from unat_bumped_count [OF this]
    have c: "unat (extractCount old + 1) = unat (extractCount old) + 1"
      "unat (extractCount old + 1) < 2 ^ 20" by simp_all
    then have lt: "unat (extractCount old) < unat (extractCount old + 1)" by simp
    have "specUpdateValue received p old = assembleTimeStamp ?o (extractCount old + 1)"
      using m by (simp add: specUpdateValue_unfold Let_def)
    with greater_by_count [OF lt c(2)]
      greater_by_time [OF old(2) unat_extractTime_less c(2)]
    show ?thesis by simp
  next
    case rec
    then have m: "max (max ?o p) ?r = ?r" "?r \<noteq> ?o" by (auto simp: max_def)
    from rec rc have "extractCount received < 0xfffff" by simp
    from unat_bumped_count [OF this]
    have c: "unat (extractCount received + 1) = unat (extractCount received) + 1"
      "unat (extractCount received + 1) < 2 ^ 20" by simp_all
    then have lt: "unat (extractCount received) < unat (extractCount received + 1)" by simp
    have "specUpdateValue received p old = assembleTimeStamp ?r (extractCount received + 1)"
      using m by (simp add: specUpdateValue_unfold Let_def)
    with greater_by_count [OF lt c(2)]
      greater_by_time [OF rec(2) unat_extractTime_less c(2)]
    show ?thesis by simp
  qed
qed

lemma getTimeStamp_greater:
  assumes "p < 2 ^ 44" "p \<le> extractTime old \<longrightarrow> extractCount old < 0xfffff"
  shows "\<exists>ret. getTimeStamp (undisturbed p # rest) old = Some (ret, ret) \<and> old < ret"
  using tickCandidate_greater [OF assms] by (simp add: Let_def)

lemma tickCandidate_shift_or:
  "tickCandidate p old =
     (if p \<le> drop_bit 20 old
      then push_bit 20 (drop_bit 20 old) OR ((old AND 0xFFFFF) + 1)
      else push_bit 20 p OR 0)"
  by (simp add: tickCandidate_def Let_def extractTime_def extractCount_def
      assembleTimeStamp_def)

section \<open>The merge \<open>getTimeStamp(receivedTimeStamp)\<close>\<close>

text \<open>
  Claim C1. The specification asks that \<open>update(received)\<close> return
  \<open>pack(newTime, newCount)\<close> with the counters of the case analysis taken from the
  packed timestamps \<open>old\<close> and \<open>received\<close>. The source takes them from \<open>oldTime\<close>
  and \<open>recTime\<close>, the time components. With \<open>lastTimeStamp = pack(1700000000000, 7)\<close>,
  a physical reading of 1699999999999 and \<open>received = pack(1700000000000, 9)\<close> the two
  times tie: the specification's value is \<open>pack(1700000000000, 10)\<close>, the call returns
  \<open>pack(1700000000000, 354305)\<close>, where 354304 is \<open>1700000000000 & 0xfffff\<close>.
\<close>

theorem update_counts_from_time_components:
  "getTimeStampReceived (assembleTimeStamp 1700000000000 9) [undisturbed 1699999999999]
       (assembleTimeStamp 1700000000000 7)
     = Some (assembleTimeStamp 1700000000000 354305, assembleTimeStamp 1700000000000 354305)
   \<and> specUpdateValue (assembleTimeStamp 1700000000000 9) 1699999999999
       (assembleTimeStamp 1700000000000 7)
     = assembleTimeStamp 1700000000000 10
   \<and> assembleTimeStamp 1700000000000 354305 \<noteq> assembleTimeStamp 1700000000000 10
   \<and> extractCount 1700000000000 = 354304"
  by code_simp

text \<open>
  Claim C2. With \<open>lastTimeStamp = pack(1000000, 3)\<close>, a physical reading of 1500000 and
  \<open>received = pack(2000000, 5)\<close> the specification expects \<open>pack(2000000, 6)\<close>. The call
  returns \<open>pack(2000000, 951425)\<close>: the new counter is \<open>(2000000 & 0xfffff) + 1\<close>, taken
  from the received time and not from the received counter 5.
\<close>

theorem update_scenario_returns_other_value:
  "getTimeStampReceived (assembleTimeStamp 2000000 5) [undisturbed 1500000]
       (assembleTimeStamp 1000000 3)
     = Some (assembleTimeStamp 2000000 951425, assembleTimeStamp 2000000 951425)
   \<and> assembleTimeStamp 2000000 951425 \<noteq> assembleTimeStamp 2000000 6
   \<and> specUpdateValue (assembleTimeStamp 2000000 5) 1500000 (assembleTimeStamp 1000000 3)
     = assembleTimeStamp 2000000 6
   \<and> extractCount 2000000 + 1 = 951425"
  by code_simp

text \<open>
  Claim C4. The claim asks that \<open>update(received)\<close> return a value above \<open>received\<close>
  and above the stored value. After three ticks in the millisecond 1699741696000 (a
  multiple of \<open>2^20\<close>) the clock holds \<open>pack(1699741696000, 2) = 1782308348624896002\<close>;
  \<open>update(0)\<close> in the same millisecond returns \<open>1782308348624896001\<close>, below the stored
  value, where the merge of the specification gives \<open>1782308348624896003\<close>. And
  \<open>update(pack(1699741696000, 7))\<close> on a fresh clock at physical time 1000 returns
  \<open>1782308348624896001\<close>, below \<open>received = 1782308348624896007\<close>, where the
  specification gives \<open>1782308348624896008\<close>. No counter is near \<open>2^20\<close>. The cause is
  that of C1: the counter is taken from the time component, here \<open>1699741696000 & 0xfffff = 0\<close>.
\<close>

theorem update_returns_below_stored_and_received:
  "getTimeStampReceived 0 [undisturbed 1699741696000] 1782308348624896002
     = Some (1782308348624896001, 1782308348624896001)
   \<and> \<not> (1782308348624896002::uint64_t) < 1782308348624896001
   \<and> specUpdateValue 0 1699741696000 1782308348624896002 = 1782308348624896003
   \<and> getTimeStampReceived 1782308348624896007 [undisturbed 1000] 0
     = Some (1782308348624896001, 1782308348624896001)
   \<and> \<not> (1782308348624896007::uint64_t) < 1782308348624896001
   \<and> specUpdateValue 1782308348624896007 1000 0 = 1782308348624896008
   \<and> (1782308348624896002::uint64_t) = push_bit 20 1699741696000 OR 2
   \<and> (1782308348624896007::uint64_t) = push_bit 20 1699741696000 OR 7
   \<and> (1699741696000::uint64_t) AND 0xfffff = 0"
  by code_simp

section \<open>The generator \<open>getTimeStamp()\<close>\<close>

text \<open>
  Claim C5. A call of \<open>getTimeStamp()\<close> that returns has a successful attempt \<open>a\<close>,
  after the failed attempts \<open>pre\<close>; with \<open>old\<close> the shared value that attempt read
  and \<open>oldTime = old >> 20\<close>, the call returns \<open>(oldTime << 20) | ((old & 0xFFFFF) + 1)\<close>
  when the physical reading of \<open>a\<close> is at most \<open>oldTime\<close>, and \<open>(physical << 20) | 0\<close>
  otherwise, and stores what it returns. A call returns as soon as one attempt is left
  undisturbed. On a fresh clock with the physical clock at 1000000 the call returns
  \<open>pack(1000000, 0) = 1048576000000\<close>, and the next call with the same reading returns
  \<open>pack(1000000, 1) = 1048576000001\<close>.
\<close>

theorem tick_returns_bumped_or_fresh:
  "(getTimeStamp sched lastTimeStamp = Some (ret, last') \<longrightarrow>
      (\<exists>pre a post. sched = pre @ a # post \<and> getTimeStamp pre lastTimeStamp = None \<and>
         compare_exchange_weak a (valueRead pre lastTimeStamp) (valueRead pre lastTimeStamp) \<and>
         ret = (if physical a \<le> drop_bit 20 (valueRead pre lastTimeStamp)
                then push_bit 20 (drop_bit 20 (valueRead pre lastTimeStamp))
                       OR ((valueRead pre lastTimeStamp AND 0xFFFFF) + 1)
                else push_bit 20 (physical a) OR 0) \<and>
         last' = ret))
   \<and> ((\<exists>a\<in>set sched. interference a = None \<and> \<not> spurious a) \<longrightarrow>
        (\<exists>ret. getTimeStamp sched lastTimeStamp = Some (ret, ret)))
   \<and> getTimeStamp [undisturbed 1000000] 0 = Some (1048576000000, 1048576000000)
   \<and> getTimeStamp [undisturbed 1000000] 1048576000000 = Some (1048576000001, 1048576000001)
   \<and> (1048576000000::uint64_t) = push_bit 20 1000000 OR 0
   \<and> (1048576000001::uint64_t) = push_bit 20 1000000 OR 1"
proof (intro conjI impI)
  assume "getTimeStamp sched lastTimeStamp = Some (ret, last')"
  from getTimeStamp_successful_attempt [OF this] obtain pre a post where
    h: "sched = pre @ a # post" "getTimeStamp pre lastTimeStamp = None"
       "compare_exchange_weak a (valueRead pre lastTimeStamp) (valueRead pre lastTimeStamp)"
       "ret = tickCandidate (physical a) (valueRead pre lastTimeStamp)" "last' = ret"
    by blast
  have "sched = pre @ a # post \<and> getTimeStamp pre lastTimeStamp = None \<and>
         compare_exchange_weak a (valueRead pre lastTimeStamp) (valueRead pre lastTimeStamp) \<and>
         ret = (if physical a \<le> drop_bit 20 (valueRead pre lastTimeStamp)
                then push_bit 20 (drop_bit 20 (valueRead pre lastTimeStamp))
                       OR ((valueRead pre lastTimeStamp AND 0xFFFFF) + 1)
                else push_bit 20 (physical a) OR 0) \<and>
         last' = ret"
    using h by (simp add: tickCandidate_shift_or)
  then show "\<exists>pre a post. sched = pre @ a # post \<and> getTimeStamp pre lastTimeStamp = None \<and>
         compare_exchange_weak a (valueRead pre lastTimeStamp) (valueRead pre lastTimeStamp) \<and>
         ret = (if physical a \<le> drop_bit 20 (valueRead pre lastTimeStamp)
                then push_bit 20 (drop_bit 20 (valueRead pre lastTimeStamp))
                       OR ((valueRead pre lastTimeStamp AND 0xFFFFF) + 1)
                else push_bit 20 (physical a) OR 0) \<and>
         last' = ret"
    by blast
next
  assume "\<exists>a\<in>set sched. interference a = None \<and> \<not> spurious a"
  then show "\<exists>ret. getTimeStamp sched lastTimeStamp = Some (ret, ret)"
    by (rule getTimeStamp_returns)
next
  show "getTimeStamp [undisturbed 1000000] 0 = Some (1048576000000, 1048576000000)"
    by code_simp
next
  show "getTimeStamp [undisturbed 1000000] 1048576000000
          = Some (1048576000001, 1048576000001)"
    by code_simp
next
  show "(1048576000000::uint64_t) = push_bit 20 1000000 OR 0" by simp
next
  show "(1048576000001::uint64_t) = push_bit 20 1000000 OR 1" by code_simp
qed

theorem tick_returns_bumped_or_fresh_witness:
  "getTimeStamp [\<lparr>physical = 999999, interference = None, spurious = True\<rparr>, undisturbed 1000000]
       1048576000004
     = Some (1048576000005, 1048576000005)
   \<and> (\<exists>a\<in>set [\<lparr>physical = 999999, interference = None, spurious = True\<rparr>, undisturbed 1000000].
         interference a = None \<and> \<not> spurious a)
   \<and> (\<exists>pre a post.
         [\<lparr>physical = 999999, interference = None, spurious = True\<rparr>, undisturbed 1000000]
           = pre @ a # post \<and>
         getTimeStamp pre 1048576000004 = None \<and>
         compare_exchange_weak a (valueRead pre 1048576000004) (valueRead pre 1048576000004) \<and>
         1048576000005 =
           (if physical a \<le> drop_bit 20 (valueRead pre 1048576000004)
            then push_bit 20 (drop_bit 20 (valueRead pre 1048576000004))
                   OR ((valueRead pre 1048576000004 AND 0xFFFFF) + 1)
            else push_bit 20 (physical a) OR 0))
   \<and> (\<exists>ret. getTimeStamp
         [\<lparr>physical = 999999, interference = None, spurious = True\<rparr>, undisturbed 1000000]
         1048576000004 = Some (ret, ret))"
proof -
  let ?sched = "[\<lparr>physical = 999999, interference = None, spurious = True\<rparr>, undisturbed 1000000]"
  have h1: "getTimeStamp ?sched 1048576000004 = Some (1048576000005, 1048576000005)"
    by code_simp
  have h2: "\<exists>a\<in>set ?sched. interference a = None \<and> \<not> spurious a"
    by (simp add: undisturbed_def)
  note t = tick_returns_bumped_or_fresh [of ?sched 1048576000004 1048576000005 1048576000005]
  from t h1 have c1: "\<exists>pre a post. ?sched = pre @ a # post \<and>
         getTimeStamp pre 1048576000004 = None \<and>
         compare_exchange_weak a (valueRead pre 1048576000004) (valueRead pre 1048576000004) \<and>
         1048576000005 =
           (if physical a \<le> drop_bit 20 (valueRead pre 1048576000004)
            then push_bit 20 (drop_bit 20 (valueRead pre 1048576000004))
                   OR ((valueRead pre 1048576000004 AND 0xFFFFF) + 1)
            else push_bit 20 (physical a) OR 0)"
    by blast
  from t h2 have c2: "\<exists>ret. getTimeStamp ?sched 1048576000004 = Some (ret, ret)"
    by blast
  from h1 h2 c1 c2 show ?thesis by blast
qed

section \<open>Sequences of calls\<close>

text \<open>
  Claim C3. The claim asks that the values returned by one clock be strictly increasing.
  Three ticks in the millisecond 1699741696000 followed by \<open>update(0)\<close> in the same
  millisecond return \<open>1782308348624896000\<close>, \<open>1782308348624896001\<close>,
  \<open>1782308348624896002\<close> and then \<open>1782308348624896001\<close> again: the fourth value
  repeats the second and lies below the third, with all counters far from \<open>2^20\<close>.
  With the merge of the specification the fourth value would be \<open>1782308348624896003\<close>
  and the run strictly increasing. The cause is that of C1.
\<close>

theorem sequential_calls_repeat_a_value:
  "runCalls [Tick 1699741696000, Tick 1699741696000, Tick 1699741696000,
             Update 1699741696000 0] 0
     = Some [1782308348624896000, 1782308348624896001, 1782308348624896002,
             1782308348624896001]
   \<and> \<not> sorted_wrt (<) [1782308348624896000, 1782308348624896001, 1782308348624896002,
             1782308348624896001 :: uint64_t]
   \<and> \<not> distinct [1782308348624896000, 1782308348624896001, 1782308348624896002,
             1782308348624896001 :: uint64_t]
   \<and> specUpdateValue 0 1699741696000 1782308348624896002 = 1782308348624896003
   \<and> sorted_wrt (<) [1782308348624896000, 1782308348624896001, 1782308348624896002,
             1782308348624896003 :: uint64_t]"
  by code_simp

section \<open>Encoding and decoding\<close>

text \<open>
  Claim C6. When \<open>decodeTable\<close> inverts \<open>encodeTable\<close> on the 64 symbols,
  \<open>encodeTimeStamp\<close> returns a string for every 64-bit \<open>t\<close> (it never writes outside
  its 11 characters) and \<open>decodeTimeStamp\<close> maps that string back to \<open>t\<close>.
\<close>

theorem decode_encode_roundtrip:
  assumes "inverseTables encodeTable decodeTable"
  shows "\<exists>s. encodeTimeStamp encodeTable t = Some s \<and> decodeTimeStamp decodeTable s = t"
  using decodeLoop_symbols [OF assms, of t]
  by (simp add: encodeTimeStamp_symbols decodeTimeStamp_def)

theorem decode_encode_roundtrip_witness:
  "inverseTables orderedEncodeTable orderedDecodeTable
   \<and> (\<exists>s. encodeTimeStamp orderedEncodeTable 1782579200000000007 = Some s
          \<and> decodeTimeStamp orderedDecodeTable s = 1782579200000000007)"
  using decode_encode_roundtrip [OF inverseTables_ordered, of 1782579200000000007]
    inverseTables_ordered
  by simp

text \<open>
  Claim C7. When the symbols of \<open>encodeTable\<close> increase with the value they encode,
  two timestamps \<open>a < b\<close> whose encodings have the same length have encodings in the
  same order, as strings of unsigned chars compared lexicographically.
\<close>

theorem equal_length_encodings_ordered:
  assumes "increasingTable encodeTable"
    and "a < b"
    and "encodeTimeStamp encodeTable a = Some sa"
    and "encodeTimeStamp encodeTable b = Some sb"
    and "length sa = length sb"
  shows "sa < sb"
proof -
  from assms(3,4) have s: "sa = symbols encodeTable a" "sb = symbols encodeTable b"
    by (simp_all add: encodeTimeStamp_symbols)
  with assms(5) have "length (sextets a) = length (sextets b)" by simp
  from symbols_less [OF assms(1,2) this] s show ?thesis by simp
qed

theorem equal_length_encodings_ordered_witness:
  "increasingTable orderedEncodeTable
   \<and> (1000::uint64_t) < 2000
   \<and> encodeTimeStamp orderedEncodeTable 1000 = Some [69, 99]
   \<and> encodeTimeStamp orderedEncodeTable 2000 = Some [85, 70]
   \<and> length [69::cchar, 99] = length [85::cchar, 70]
   \<and> [69::cchar, 99] < [85, 70]"
proof -
  have h2: "(1000::uint64_t) < 2000" by simp
  have h3: "encodeTimeStamp orderedEncodeTable 1000 = Some [69, 99]" by code_simp
  have h4: "encodeTimeStamp orderedEncodeTable 2000 = Some [85, 70]" by code_simp
  have h5: "length [69::cchar, 99] = length [85::cchar, 70]" by simp
  from equal_length_encodings_ordered [OF increasingTable_orderedEncodeTable h2 h3 h4 h5]
  show ?thesis using increasingTable_orderedEncodeTable h2 h3 h4 h5 by blast
qed

text \<open>
  Claim C8. When \<open>decodeTable\<close> holds a negative entry exactly at the chars outside the
  alphabet, \<open>decodeTimeStampWithCheck\<close> returns 0 for every string with a char outside
  the alphabet, whatever it had accumulated before that char, and returns what
  \<open>decodeTimeStamp\<close> returns for every string of alphabet symbols. It has no error
  result.
\<close>

theorem checked_decode_zero_or_decode:
  assumes "checkingTable encodeTable decodeTable"
  shows "(\<not> set s \<subseteq> alphabet encodeTable \<longrightarrow> decodeTimeStampWithCheck decodeTable s = 0)
       \<and> (set s \<subseteq> alphabet encodeTable \<longrightarrow>
            decodeTimeStampWithCheck decodeTable s = decodeTimeStamp decodeTable s)"
  using decodeCheckLoop_invalid [OF assms, of s 0] decodeCheckLoop_valid [OF assms, of s 0]
  by (simp add: decodeTimeStampWithCheck_def decodeTimeStamp_def)

theorem checked_decode_zero_or_decode_witness:
  "checkingTable orderedEncodeTable orderedDecodeTable
   \<and> \<not> set [69, 33, 99] \<subseteq> alphabet orderedEncodeTable
   \<and> decodeTimeStampWithCheck orderedDecodeTable [69, 33, 99] = 0
   \<and> set [69, 99] \<subseteq> alphabet orderedEncodeTable
   \<and> decodeTimeStampWithCheck orderedDecodeTable [69, 99]
       = decodeTimeStamp orderedDecodeTable [69, 99]"
proof -
  have bad: "\<not> set [69, 33, 99] \<subseteq> alphabet orderedEncodeTable"
    by (simp add: alphabet_def take_64_orderedEncodeTable orderedAlphabet_def)
  have good: "set [69, 99] \<subseteq> alphabet orderedEncodeTable"
    by (simp add: alphabet_def take_64_orderedEncodeTable orderedAlphabet_def)
  from checked_decode_zero_or_decode [OF checkingTable_ordered, of "[69, 33, 99]"]
    checked_decode_zero_or_decode [OF checkingTable_ordered, of "[69, 99]"]
    checkingTable_ordered bad good
  show ?thesis by blast
qed

text \<open>
  Claim C9. For a table of 64 distinct symbols, \<open>encodeTimeStamp\<close> returns for every
  \<open>t\<close> a string of at most 11 characters whose first character, if there is one, is
  not the symbol of the value 0, and whose length \<open>n\<close> is the least with
  \<open>t < 64^n\<close>. \<open>encodeTimeStamp(0)\<close> is the empty string, and \<open>decodeTimeStamp\<close> of the
  empty string is 0.
\<close>

theorem encode_minimal_length:
  assumes "length encodeTable = 65" and "distinct (take 64 encodeTable)"
  shows "(\<exists>s. encodeTimeStamp encodeTable t = Some s \<and> length s \<le> 11 \<and>
            (s \<noteq> [] \<longrightarrow> hd s \<noteq> encodeTable ! 0) \<and>
            unat t < 64 ^ length s \<and> (t \<noteq> 0 \<longrightarrow> 64 ^ (length s - 1) \<le> unat t))
       \<and> encodeTimeStamp encodeTable 0 = Some []
       \<and> decodeTimeStamp decodeTable [] = 0"
proof -
  have first: "hd (symbols encodeTable t) \<noteq> encodeTable ! 0" if "symbols encodeTable t \<noteq> []"
  proof -
    from that have t: "t \<noteq> 0" by (auto simp: symbols_def sextets_Nil_iff)
    then have ne: "sextets t \<noteq> []" by (simp add: sextets_Nil_iff)
    let ?d = "hd (sextets t)"
    let ?i = "unat (ucast ?d :: 8 word)"
    from ne have "?d \<in> set (sextets t)" by simp
    then have "unat ?d < 64" by (rule sextets_less_64)
    then have i: "?i = unat ?d" "?i < 64"
      by (simp_all add: unsigned_ucast_eq take_bit_nat_eq_self)
    from hd_sextets_nonzero [OF t] have "unat ?d \<noteq> 0" by (simp add: unat_eq_0)
    with i have pos: "0 < ?i" by simp
    have "take 64 encodeTable ! ?i \<noteq> take 64 encodeTable ! 0"
      using assms i(2) pos by (simp only: nth_eq_iff_index_eq length_take)
    with i(2) have "encodeTable ! ?i \<noteq> encodeTable ! 0" by simp
    with ne show ?thesis by (simp add: symbols_def hd_map)
  qed
  have "length (symbols encodeTable t) \<le> 11"
    using length_sextets_le_11 [of t] by simp
  moreover have "unat t < 64 ^ length (symbols encodeTable t)"
    using unat_less_length_sextets [of t] by simp
  moreover have "t \<noteq> 0 \<longrightarrow> 64 ^ (length (symbols encodeTable t) - 1) \<le> unat t"
    using length_sextets_minimal [of t] by simp
  ultimately show ?thesis
    using first by (simp add: encodeTimeStamp_symbols decodeTimeStamp_def)
qed

theorem encode_minimal_length_witness:
  "length orderedEncodeTable = 65 \<and> distinct (take 64 orderedEncodeTable)
   \<and> (\<exists>s. encodeTimeStamp orderedEncodeTable 1000 = Some s \<and> length s \<le> 11 \<and>
            (s \<noteq> [] \<longrightarrow> hd s \<noteq> orderedEncodeTable ! 0) \<and>
            unat (1000::uint64_t) < 64 ^ length s \<and>
            ((1000::uint64_t) \<noteq> 0 \<longrightarrow> 64 ^ (length s - 1) \<le> unat (1000::uint64_t)))
   \<and> encodeTimeStamp orderedEncodeTable 0 = Some []
   \<and> decodeTimeStamp orderedDecodeTable [] = 0"
proof -
  have h1: "length orderedEncodeTable = 65"
    by (simp add: orderedEncodeTable_def length_orderedAlphabet)
  have h2: "distinct (take 64 orderedEncodeTable)"
    by (simp add: take_64_orderedEncodeTable distinct_orderedAlphabet)
  from encode_minimal_length [OF h1 h2, of 1000 orderedDecodeTable] h1 h2
  show ?thesis by blast
qed

section \<open>Issued timestamps are not 0\<close>



end
